theory Spec2Isabelle
  imports Complex_Main "HOL-Library.Multiset" "HOL-Library.Sublist" "HOL-Library.Word"
begin

section \<open>Data model\<close>

text \<open>
  The notebook reads \<^verbatim>\<open>dummy_data.csv\<close> with
  \<^verbatim>\<open>pd.read_csv(..., header=0, dtype=dtypes, parse_dates=["col_1"])\<close>.
  After the read every data row is typed: \<^verbatim>\<open>col_1\<close> is a \<^verbatim>\<open>datetime64[ns]\<close> value,
  \<^verbatim>\<open>col_2 .. col_51\<close> are \<^verbatim>\<open>int32\<close>, \<^verbatim>\<open>col_52 .. col_101\<close> are \<^verbatim>\<open>float32\<close> and
  \<^verbatim>\<open>col_0\<close> is text. The filters read \<^verbatim>\<open>col_1\<close>, \<^verbatim>\<open>col_2\<close>, \<^verbatim>\<open>col_3\<close> and \<^verbatim>\<open>col_100\<close>
  only; the other columns are carried through to the output untouched.
\<close>

text \<open>A \<^verbatim>\<open>datetime64[ns]\<close> value: not-a-time, or a calendar day (year, month, day)
  with the nanoseconds elapsed since midnight.\<close>

datatype timestamp = NaT | Stamp int int int int

text \<open>A \<^verbatim>\<open>float32\<close> value: the not-a-number, the two infinities, or a finite value
  given by the rational it denotes.\<close>

datatype float32 = NaN | NegInf | Finite rat | PosInf

record row =
  col_0 :: string
  col_1 :: timestamp
  col_2 :: "32 word"
  col_3 :: "32 word"
  col_100 :: float32
  others :: "string list"

text \<open>Comparison of timestamps as pandas does it elementwise: any comparison with
  \<^verbatim>\<open>NaT\<close> is false, the others are chronological.\<close>

fun stamp_le :: "timestamp \<Rightarrow> timestamp \<Rightarrow> bool" where
  "stamp_le (Stamp y m d n) (Stamp y' m' d' n') =
     (y < y' \<or> (y = y' \<and> (m < m' \<or> (m = m' \<and> (d < d' \<or> (d = d' \<and> n \<le> n'))))))"
| "stamp_le _ _ = False"

text \<open>Comparison of a \<^verbatim>\<open>float32\<close> with a finite bound: false on \<^verbatim>\<open>NaN\<close>.\<close>

fun float_lt :: "float32 \<Rightarrow> rat \<Rightarrow> bool" where
  "float_lt NaN b = False"
| "float_lt NegInf b = True"
| "float_lt (Finite q) b = (q < b)"
| "float_lt PosInf b = False"

section \<open>The filters\<close>

text \<open>The four masks of the cells, in the order the cells apply them:
  \<^verbatim>\<open>chunk["col_1"] <= "1990-12-24"\<close>, \<^verbatim>\<open>before_date["col_2"] > 0\<close>,
  \<^verbatim>\<open>col2_gt_0["col_3"] > 50\<close> and \<^verbatim>\<open>col3_gt_50["col_100"] < 0.5\<close>.\<close>

definition before_date_p :: "row \<Rightarrow> bool" where
  "before_date_p r = stamp_le (col_1 r) (Stamp 1990 12 24 0)"

definition col2_gt_0_p :: "row \<Rightarrow> bool" where
  "col2_gt_0_p r = (0 < sint (col_2 r))"

definition col3_gt_50_p :: "row \<Rightarrow> bool" where
  "col3_gt_50_p r = (50 < sint (col_3 r))"

definition col_100_lt_05_p :: "row \<Rightarrow> bool" where
  "col_100_lt_05_p r = float_lt (col_100 r) (1 / 2)"

text \<open>The body of every \<^verbatim>\<open>process\<close> between the read and the write: each line indexes
  the previous frame with a boolean mask computed on that frame, which keeps the rows
  whose mask is true, in the frame's order.\<close>

definition filtration :: "row list \<Rightarrow> row list" where
  "filtration chunk =
     (let before_date = filter before_date_p chunk;
          col2_gt_0 = filter col2_gt_0_p before_date;
          col3_gt_50 = filter col3_gt_50_p col2_gt_0;
          col_100_lt_05 = filter col_100_lt_05_p col3_gt_50
      in col_100_lt_05)"

text \<open>The same shape for any ordered list of predicates: one masking step per predicate,
  each on the result of the one before.\<close>

definition apply_chain :: "('a \<Rightarrow> bool) list \<Rightarrow> 'a list \<Rightarrow> 'a list" where
  "apply_chain ps batch = foldl (\<lambda>frame p. filter p frame) batch ps"

text \<open>Two ways to decide one row against a chain: stopping at the first predicate that
  fails, and evaluating every predicate before combining the answers.\<close>

fun passes_short :: "('a \<Rightarrow> bool) list \<Rightarrow> 'a \<Rightarrow> bool" where
  "passes_short [] r = True"
| "passes_short (p # ps) r = (if p r then passes_short ps r else False)"

definition passes_full :: "('a \<Rightarrow> bool) list \<Rightarrow> 'a \<Rightarrow> bool" where
  "passes_full ps r = foldr (\<and>) (map (\<lambda>p. p r) ps) True"


section \<open>The destination file\<close>

text \<open>
  Every cell writes with \<^verbatim>\<open>to_csv("processed_chunks.csv", sep=",", mode="a",
  header=False, index=False, columns=cols)\<close>: the frame's rows, one line per row, are
  appended to what the file holds. The file is its bytes together with the room the
  device has for it; a write that finds no room left raises \<^verbatim>\<open>OSError\<close> after the
  bytes that still fitted. The reader raises \<^verbatim>\<open>ValueError\<close> (a field that does not
  convert to the column's declared type, or a chunk size below one).
\<close>

datatype error = ValueError | OSError

record sink =
  content :: string
  capacity :: nat


text \<open>The text of a frame: the lines of its rows in order. How one row is laid out as
  a line (the columns \<^verbatim>\<open>cols\<close>, comma separated, newline terminated) is the library's
  business and is a parameter here.\<close>

definition csv_text :: "(row \<Rightarrow> string) \<Rightarrow> row list \<Rightarrow> string" where
  "csv_text line df = concat (map line df)"


section \<open>The reader\<close>

text \<open>
  \<^verbatim>\<open>pd.read_csv\<close> converts the fields of each data line to the declared column types.
  The conversion of one line is the library's and is a parameter \<open>coerce\<close>, with \<open>None\<close>
  for a line that does not convert; no cell passes an option that would skip such a
  line or catches the exception, so the read of a frame raises as soon as one of its
  lines fails. The header line (\<^verbatim>\<open>header=0\<close>) is consumed by the reader; the input of
  the model is the list of data lines after it.
\<close>

fun read_rows :: "('raw \<Rightarrow> row option) \<Rightarrow> 'raw list \<Rightarrow> row list option" where
  "read_rows coerce [] = Some []"
| "read_rows coerce (x # xs) =
     (case coerce x of
        None \<Rightarrow> None
      | Some r \<Rightarrow> (case read_rows coerce xs of None \<Rightarrow> None | Some rs \<Rightarrow> Some (r # rs)))"

text \<open>Modelled from the spec: the iterator that \<^verbatim>\<open>pd.read_csv(..., chunksize=B)\<close> returns
  is library code; the cells only iterate over it. It hands out the data lines \<open>B\<close> at a
  time, in order, the last batch holding what remains, and ends when no line is left.\<close>

function chunked :: "nat \<Rightarrow> 'a list \<Rightarrow> 'a list list" where
  "chunked B xs = (if B = 0 \<or> xs = [] then [] else take B xs # chunked B (drop B xs))"
  by pat_completeness auto
termination
  by (relation "measure (\<lambda>(B, xs). length xs)") auto

declare chunked.simps [simp del]

section \<open>The sequential cells\<close>




text \<open>The chunk size the cells pass.\<close>

definition chunksize :: nat where
  "chunksize = 500000"


text \<open>The batches the loop gets to read: those before the first batch with a line that
  does not convert.\<close>

fun read_prefix :: "('raw \<Rightarrow> row option) \<Rightarrow> 'raw list list \<Rightarrow> row list list" where
  "read_prefix coerce [] = []"
| "read_prefix coerce (c # cs) =
     (case read_rows coerce c of None \<Rightarrow> [] | Some chunk \<Rightarrow> chunk # read_prefix coerce cs)"

section \<open>The concurrent cell\<close>

text \<open>
  The third cell creates a lock \<^verbatim>\<open>l = Lock()\<close> and a pool \<^verbatim>\<open>Pool(processes=3)\<close>, whose
  worker processes are forked from the notebook process and so share the lock. The main
  process iterates over the chunk iterator and hands every batch to the pool with
  \<^verbatim>\<open>pool.apply_async(process, (chunk, i))\<close>, which puts the task on the pool's queue and
  returns at once; the result object is dropped. Then \<^verbatim>\<open>pool.close()\<close> and
  \<^verbatim>\<open>pool.join()\<close> wait until every task is done. A worker takes a task, filters the
  batch, calls \<^verbatim>\<open>l.acquire()\<close>, appends the filtered frame with \<^verbatim>\<open>to_csv\<close> and calls
  \<^verbatim>\<open>l.release()\<close>.

  The cell is a transition system. A worker is idle, holds a filtered frame while it
  waits for the lock, or is inside \<^verbatim>\<open>to_csv\<close> with the bytes it still has to append. To
  let writes of different workers interleave as finely as a file allows, a write step
  appends one byte.
\<close>

datatype wstate = Idle | Ready "row list" | Writing "row list" string

datatype mstate = Dispatching | Joining | Returned | Raised error

record 'raw pool_state =
  main :: mstate
  source :: "'raw list list"
  queue :: "row list list"
  workers :: "wstate list"
  lock :: bool
  dest :: sink

text \<open>
  The steps, in the order of the cell: the loop body (pull the next batch and submit it),
  the read raising in the main process, the end of the loop, \<^verbatim>\<open>pool.join()\<close> returning,
  and in a worker: taking a task and filtering, \<^verbatim>\<open>l.acquire()\<close> (which waits while the
  lock is held), one byte of \<^verbatim>\<open>to_csv\<close>, \<^verbatim>\<open>to_csv\<close> raising \<^verbatim>\<open>OSError\<close> (the exception
  ends the task before \<^verbatim>\<open>l.release()\<close>, is stored in the dropped result object, and the
  worker goes back to the queue), and \<^verbatim>\<open>l.release()\<close>.
\<close>

inductive step ::
  "('raw \<Rightarrow> row option) \<Rightarrow> (row \<Rightarrow> string) \<Rightarrow> 'raw pool_state \<Rightarrow> 'raw pool_state \<Rightarrow> bool"
  for coerce :: "'raw \<Rightarrow> row option" and line :: "row \<Rightarrow> string" where
  m_dispatch:
    "main s = Dispatching \<Longrightarrow> source s = c # cs \<Longrightarrow> read_rows coerce c = Some chunk \<Longrightarrow>
     step coerce line s (s\<lparr>source := cs, queue := queue s @ [chunk]\<rparr>)"
| m_read_error:
    "main s = Dispatching \<Longrightarrow> source s = c # cs \<Longrightarrow> read_rows coerce c = None \<Longrightarrow>
     step coerce line s (s\<lparr>main := Raised ValueError\<rparr>)"
| m_close:
    "main s = Dispatching \<Longrightarrow> source s = [] \<Longrightarrow>
     step coerce line s (s\<lparr>main := Joining\<rparr>)"
| m_join:
    "main s = Joining \<Longrightarrow> queue s = [] \<Longrightarrow> list_all (\<lambda>w. w = Idle) (workers s) \<Longrightarrow>
     step coerce line s (s\<lparr>main := Returned\<rparr>)"
| w_take:
    "i < length (workers s) \<Longrightarrow> workers s ! i = Idle \<Longrightarrow> queue s = chunk # q \<Longrightarrow>
     step coerce line s
       (s\<lparr>queue := q, workers := (workers s)[i := Ready (filtration chunk)]\<rparr>)"
| w_acquire:
    "i < length (workers s) \<Longrightarrow> workers s ! i = Ready df \<Longrightarrow> \<not> lock s \<Longrightarrow>
     step coerce line s
       (s\<lparr>workers := (workers s)[i := Writing df (csv_text line df)], lock := True\<rparr>)"
| w_write:
    "i < length (workers s) \<Longrightarrow> workers s ! i = Writing df (b # bs) \<Longrightarrow>
     length (content (dest s)) < capacity (dest s) \<Longrightarrow>
     step coerce line s
       (s\<lparr>workers := (workers s)[i := Writing df bs],
          dest := (dest s)\<lparr>content := content (dest s) @ [b]\<rparr>\<rparr>)"
| w_fail:
    "i < length (workers s) \<Longrightarrow> workers s ! i = Writing df (b # bs) \<Longrightarrow>
     \<not> length (content (dest s)) < capacity (dest s) \<Longrightarrow>
     step coerce line s (s\<lparr>workers := (workers s)[i := Idle]\<rparr>)"
| w_release:
    "i < length (workers s) \<Longrightarrow> workers s ! i = Writing df [] \<Longrightarrow>
     step coerce line s (s\<lparr>workers := (workers s)[i := Idle], lock := False\<rparr>)"

inductive reaches ::
  "('raw \<Rightarrow> row option) \<Rightarrow> (row \<Rightarrow> string) \<Rightarrow> 'raw pool_state \<Rightarrow> 'raw pool_state \<Rightarrow> bool"
  for coerce :: "'raw \<Rightarrow> row option" and line :: "row \<Rightarrow> string" where
  start: "reaches coerce line s s"
| further: "reaches coerce line s t \<Longrightarrow> step coerce line t u \<Longrightarrow> reaches coerce line s u"

text \<open>The cell's start: \<open>W\<close> idle workers, the lock free, the iterator at the first batch.
  \<^verbatim>\<open>Pool(processes=W)\<close> and \<^verbatim>\<open>read_csv(chunksize=B)\<close> raise \<^verbatim>\<open>ValueError\<close> for a count
  below one, before the loop is entered. The cell passes \<open>W = 3\<close> and \<open>B = 500000\<close>.\<close>

definition init :: "nat \<Rightarrow> nat \<Rightarrow> 'raw list \<Rightarrow> sink \<Rightarrow> 'raw pool_state" where
  "init W B raws f =
     \<lparr>main = (if W = 0 \<or> B = 0 then Raised ValueError else Dispatching),
      source = chunked B raws, queue = [], workers = replicate W Idle,
      lock = False, dest = f\<rparr>"

definition processes :: nat where
  "processes = 3"

text \<open>The frame a worker holds, if any, and the frames in flight: submitted to the pool
  and not yet completely written.\<close>

fun frames_of :: "wstate \<Rightarrow> row list list" where
  "frames_of Idle = []"
| "frames_of (Ready df) = [df]"
| "frames_of (Writing df todo) = [df]"

definition in_flight_frames :: "'raw pool_state \<Rightarrow> row list list" where
  "in_flight_frames s = map filtration (queue s) @ concat (map frames_of (workers s))"

definition in_flight :: "'raw pool_state \<Rightarrow> nat" where
  "in_flight s = length (in_flight_frames s)"

fun is_writing :: "wstate \<Rightarrow> bool" where
  "is_writing (Writing df todo) = True"
| "is_writing _ = False"

text \<open>No task is left: the main process is past its loop, the queue is empty and every
  worker is idle.\<close>

definition quiescent :: "'raw pool_state \<Rightarrow> bool" where
  "quiescent s \<longleftrightarrow>
     main s \<noteq> Dispatching \<and> queue s = [] \<and> list_all (\<lambda>w. w = Idle) (workers s)"


text \<open>The frames still to be submitted: the filtered batches the loop will read before
  it ends or raises.\<close>

definition rest :: "('raw \<Rightarrow> row option) \<Rightarrow> 'raw pool_state \<Rightarrow> row list list" where
  "rest coerce s =
     (if main s = Dispatching then map filtration (read_prefix coerce (source s)) else [])"

text \<open>The rows both sequential cells write when nothing fails on the way: the rows of
  the batches read, filtered.\<close>

definition survivors :: "('raw \<Rightarrow> row option) \<Rightarrow> nat \<Rightarrow> 'raw list \<Rightarrow> row list" where
  "survivors coerce B raws = filtration (concat (read_prefix coerce (chunked B raws)))"

text \<open>A start with nothing in flight, and a destination with room for everything the
  run is going to append.\<close>

definition clean :: "'raw pool_state \<Rightarrow> bool" where
  "clean s \<longleftrightarrow> queue s = [] \<and> \<not> lock s \<and> list_all (\<lambda>w. w = Idle) (workers s)"

definition fits :: "('raw \<Rightarrow> row option) \<Rightarrow> (row \<Rightarrow> string) \<Rightarrow> 'raw pool_state \<Rightarrow> bool" where
  "fits coerce line s \<longleftrightarrow>
     length (content (dest s)) + length (concat (map (csv_text line) (rest coerce s)))
       \<le> capacity (dest s)"

text \<open>
  The invariant of the cell, relative to its start \<open>s0\<close>. The file is what it was at the
  start, then the complete texts of the frames \<open>dfs\<close>, in the order their writes
  finished, then \<open>pre\<close>, the part written so far of at most one more frame. That frame
  belongs to the one worker inside \<^verbatim>\<open>to_csv\<close>, who holds the lock, or to \<open>lost\<close>, a write
  that raised. Every frame submitted is written, lost, in flight or still to be read.
\<close>

definition inv ::
  "('raw \<Rightarrow> row option) \<Rightarrow> (row \<Rightarrow> string) \<Rightarrow> 'raw pool_state \<Rightarrow> 'raw pool_state \<Rightarrow>
     row list list \<Rightarrow> row list list \<Rightarrow> string \<Rightarrow> bool" where
  "inv coerce line s0 s dfs lost pre \<longleftrightarrow>
     content (dest s) = content (dest s0) @ concat (map (csv_text line) dfs) @ pre
   \<and> capacity (dest s) = capacity (dest s0)
   \<and> length (workers s0) = length (workers s)
   \<and> (\<not> lock s \<longrightarrow> pre = [] \<and> lost = [] \<and> (\<forall>i < length (workers s). \<not> is_writing (workers s ! i)))
   \<and> (\<forall>i < length (workers s). \<forall>j < length (workers s).
        is_writing (workers s ! i) \<and> is_writing (workers s ! j) \<longrightarrow> i = j)
   \<and> (\<forall>i < length (workers s). \<forall>df todo. workers s ! i = Writing df todo \<longrightarrow>
        lock s \<and> lost = [] \<and> pre @ todo = csv_text line df)
   \<and> mset dfs + mset lost + mset (in_flight_frames s) + mset (rest coerce s) = mset (rest coerce s0)
   \<and> (pre = [] \<or> (\<exists>df todo. pre @ todo = csv_text line df \<and>
         (df \<in> set lost \<or> (\<exists>i < length (workers s). workers s ! i = Writing df todo))))"

section \<open>Example data\<close>

text \<open>Five typed rows used to run the definitions: one that passes every mask, and one
  failing each mask in turn.\<close>

definition row_keep :: row where
  "row_keep = \<lparr>col_0 = ''TCGA_7'', col_1 = Stamp 1985 3 7 0, col_2 = 7, col_3 = 60,
     col_100 = Finite (1 / 4), others = []\<rparr>"

definition row_late :: row where
  "row_late = \<lparr>col_0 = ''TCGA_8'', col_1 = Stamp 1995 1 1 0, col_2 = 7, col_3 = 60,
     col_100 = Finite (1 / 4), others = []\<rparr>"

definition row_zero :: row where
  "row_zero = \<lparr>col_0 = ''TCGA_9'', col_1 = Stamp 1985 3 7 0, col_2 = 0, col_3 = 60,
     col_100 = Finite (1 / 4), others = []\<rparr>"

definition row_low :: row where
  "row_low = \<lparr>col_0 = ''TCGA_10'', col_1 = Stamp 1985 3 7 0, col_2 = 7, col_3 = 50,
     col_100 = Finite (1 / 4), others = []\<rparr>"

definition row_high :: row where
  "row_high = \<lparr>col_0 = ''TCGA_11'', col_1 = Stamp 1985 3 7 0, col_2 = 7, col_3 = 60,
     col_100 = Finite (3 / 4), others = []\<rparr>"

definition row_keep2 :: row where
  "row_keep2 = \<lparr>col_0 = ''TCGA_12'', col_1 = Stamp 1990 12 24 0, col_2 = 1, col_3 = 51,
     col_100 = NegInf, others = []\<rparr>"




section \<open>Facts about the filters\<close>

lemma apply_chain_Nil: "apply_chain [] batch = batch"
  by (simp add: apply_chain_def)

lemma apply_chain_Cons: "apply_chain (p # ps) batch = apply_chain ps (filter p batch)"
  by (simp add: apply_chain_def)

lemma passes_short_iff: "passes_short ps r \<longleftrightarrow> (\<forall>p \<in> set ps. p r)"
  by (induction ps) auto

lemma passes_full_iff: "passes_full ps r \<longleftrightarrow> (\<forall>p \<in> set ps. p r)"
  by (induction ps) (auto simp: passes_full_def)

lemma apply_chain_filter: "apply_chain ps batch = filter (passes_short ps) batch"
proof (induction ps arbitrary: batch)
  case Nil
  show ?case by (simp add: apply_chain_Nil)
next
  case (Cons p ps)
  have "apply_chain (p # ps) batch = filter (passes_short ps) (filter p batch)"
    by (simp add: apply_chain_Cons Cons.IH)
  also have "\<dots> = filter (\<lambda>x. p x \<and> passes_short ps x) batch"
    by simp
  also have "\<dots> = filter (passes_short (p # ps)) batch"
    by (rule filter_cong [OF refl]) simp
  finally show ?case .
qed

lemma filtration_chain:
  "filtration chunk =
     apply_chain [before_date_p, col2_gt_0_p, col3_gt_50_p, col_100_lt_05_p] chunk"
  by (simp add: filtration_def apply_chain_def)




text \<open>
  Claim C1. For every batch and every ordered chain of predicates, the chain of masking
  steps keeps exactly the rows that pass all predicates, in the order they have in the
  batch; deciding each row with a stop at the first failing predicate selects the same
  rows in the same order as evaluating every predicate on every row. The cells' own chain
  is the instance with the four masks.
\<close>

theorem filter_chain_stable:
  "filtration batch =
     apply_chain [before_date_p, col2_gt_0_p, col3_gt_50_p, col_100_lt_05_p] batch
   \<and> apply_chain ps frame = filter (passes_short ps) frame
   \<and> filter (passes_short ps) frame = filter (passes_full ps) frame
   \<and> (r \<in> set (apply_chain ps frame) \<longleftrightarrow> r \<in> set frame \<and> (\<forall>p \<in> set ps. p r))
   \<and> subseq (apply_chain ps frame) frame"
proof -
  have a: "apply_chain ps frame = filter (passes_short ps) frame"
    by (rule apply_chain_filter)
  have b: "filter (passes_short ps) frame = filter (passes_full ps) frame"
    by (rule filter_cong) (simp_all add: passes_short_iff passes_full_iff)
  have c: "r \<in> set (apply_chain ps frame) \<longleftrightarrow> r \<in> set frame \<and> (\<forall>p \<in> set ps. p r)"
    by (simp add: a passes_short_iff)
  have d: "subseq (apply_chain ps frame) frame"
    by (simp add: a)
  from filtration_chain a b c d show ?thesis by blast
qed


theorem filter_chain_stable_witness:
  "row_keep \<in> set [row_late, row_keep, row_zero]
   \<and> before_date_p row_keep \<and> col2_gt_0_p row_keep
   \<and> row_keep \<in> set (apply_chain [before_date_p, col2_gt_0_p] [row_late, row_keep, row_zero])
   \<and> filtration [row_late, row_keep, row_zero, row_low, row_keep2, row_high]
       = [row_keep, row_keep2]"
proof -
  have k: "before_date_p row_keep" "col2_gt_0_p row_keep"
    by (simp_all add: before_date_p_def col2_gt_0_p_def row_keep_def)
  have f: "filtration [row_late, row_keep, row_zero, row_low, row_keep2, row_high]
       = [row_keep, row_keep2]"
    by (simp add: filtration_def before_date_p_def col2_gt_0_p_def col3_gt_50_p_def
        col_100_lt_05_p_def row_keep_def row_late_def row_zero_def row_low_def
        row_keep2_def row_high_def)
  have m: "row_keep \<in> set (apply_chain [before_date_p, col2_gt_0_p] [row_late, row_keep, row_zero])
      \<longleftrightarrow> row_keep \<in> set [row_late, row_keep, row_zero]
         \<and> (\<forall>p \<in> set [before_date_p, col2_gt_0_p]. p row_keep)"
    by (rule filter_chain_stable [of "[row_late, row_keep, row_zero]"
          "[before_date_p, col2_gt_0_p]" "[row_late, row_keep, row_zero]" row_keep,
          THEN conjunct2, THEN conjunct2, THEN conjunct2, THEN conjunct1])
  have h: "row_keep \<in> set [row_late, row_keep, row_zero]"
    by simp
  have q: "\<forall>p \<in> set [before_date_p, col2_gt_0_p]. p row_keep"
    using k by simp
  from h q m have "row_keep \<in> set (apply_chain [before_date_p, col2_gt_0_p] [row_late, row_keep, row_zero])"
    by (simp only:)
  with h k f show ?thesis by (simp only: simp_thms)
qed

section \<open>Facts about the chunk iterator\<close>

lemma chunked_0: "chunked 0 xs = []"
  by (simp add: chunked.simps)









section \<open>Facts about the sequential cells\<close>





















section \<open>Facts about the concurrent cell\<close>

lemma frames_update:
  assumes "i < length ws"
  shows "mset (concat (map frames_of (ws[i := w]))) + mset (frames_of (ws ! i))
       = mset (concat (map frames_of ws)) + mset (frames_of w)"
proof -
  have a: "ws = take i ws @ ws ! i # drop (Suc i) ws"
    using assms by (simp add: id_take_nth_drop)
  have b: "ws[i := w] = take i ws @ w # drop (Suc i) ws"
    using assms by (simp add: upd_conv_take_nth_drop)
  have "mset (concat (map frames_of ws))
      = mset (concat (map frames_of (take i ws))) + mset (frames_of (ws ! i))
        + mset (concat (map frames_of (drop (Suc i) ws)))"
    by (subst a) simp
  moreover have "mset (concat (map frames_of (ws[i := w])))
      = mset (concat (map frames_of (take i ws))) + mset (frames_of w)
        + mset (concat (map frames_of (drop (Suc i) ws)))"
    by (subst b) simp
  ultimately show ?thesis by simp
qed

lemma inv_start:
  "queue s0 = [] \<Longrightarrow> \<not> lock s0 \<Longrightarrow> list_all (\<lambda>w. w = Idle) (workers s0) \<Longrightarrow>
   inv coerce line s0 s0 [] [] []"
proof -
  assume q: "queue s0 = []" and l: "\<not> lock s0" and w: "list_all (\<lambda>w. w = Idle) (workers s0)"
  have n: "\<forall>i < length (workers s0). workers s0 ! i = Idle"
    using w by (simp add: list_all_length)
  have "concat (map frames_of (workers s0)) = []"
    using w by (induction "workers s0") (auto simp: list_all_iff)
  then have f: "in_flight_frames s0 = []"
    using q by (simp add: in_flight_frames_def)
  show ?thesis
    unfolding inv_def using l n f by simp
qed

lemma inv_dispatch:
  assumes "inv coerce line s0 s dfs lost pre"
    and "main s = Dispatching" "source s = c # cs" "read_rows coerce c = Some chunk"
  shows "inv coerce line s0 (s\<lparr>source := cs, queue := queue s @ [chunk]\<rparr>) dfs lost pre"
  using assms unfolding inv_def by (auto simp add: in_flight_frames_def rest_def)

lemma inv_read_error:
  assumes "inv coerce line s0 s dfs lost pre"
    and "main s = Dispatching" "source s = c # cs" "read_rows coerce c = None"
  shows "inv coerce line s0 (s\<lparr>main := Raised ValueError\<rparr>) dfs lost pre"
  using assms unfolding inv_def by (auto simp add: in_flight_frames_def rest_def)

lemma inv_close:
  assumes "inv coerce line s0 s dfs lost pre"
    and "main s = Dispatching" "source s = []"
  shows "inv coerce line s0 (s\<lparr>main := Joining\<rparr>) dfs lost pre"
  using assms unfolding inv_def by (auto simp add: in_flight_frames_def rest_def)

lemma inv_join:
  assumes "inv coerce line s0 s dfs lost pre"
    and "main s = Joining"
  shows "inv coerce line s0 (s\<lparr>main := Returned\<rparr>) dfs lost pre"
  using assms unfolding inv_def by (auto simp add: in_flight_frames_def rest_def)

lemma rest_simps [simp]:
  "rest coerce (s\<lparr>workers := ws\<rparr>) = rest coerce s"
  "rest coerce (s\<lparr>lock := l\<rparr>) = rest coerce s"
  "rest coerce (s\<lparr>queue := q\<rparr>) = rest coerce s"
  "rest coerce (s\<lparr>dest := d\<rparr>) = rest coerce s"
  by (simp_all add: rest_def)

lemma frames_update_Idle:
  "i < length ws \<Longrightarrow> ws ! i = Idle \<Longrightarrow>
     mset (concat (map frames_of (ws[i := w]))) = mset (concat (map frames_of ws)) + mset (frames_of w)"
  using frames_update [of i ws w] by simp

lemma frames_update_same:
  "i < length ws \<Longrightarrow> frames_of (ws ! i) = frames_of w \<Longrightarrow>
     mset (concat (map frames_of (ws[i := w]))) = mset (concat (map frames_of ws))"
  using frames_update [of i ws w] by simp

lemma frames_update_drop:
  "i < length ws \<Longrightarrow> frames_of (ws ! i) = [df] \<Longrightarrow>
     add_mset df (mset (concat (map frames_of (ws[i := Idle])))) = mset (concat (map frames_of ws))"
  using frames_update [of i ws Idle] by simp

lemma invI:
  assumes "content (dest s) = content (dest s0) @ concat (map (csv_text line) dfs) @ pre"
    and "capacity (dest s) = capacity (dest s0)"
    and "length (workers s0) = length (workers s)"
    and "\<not> lock s \<Longrightarrow> pre = [] \<and> lost = [] \<and> (\<forall>i < length (workers s). \<not> is_writing (workers s ! i))"
    and "\<And>i j. i < length (workers s) \<Longrightarrow> j < length (workers s) \<Longrightarrow>
        is_writing (workers s ! i) \<Longrightarrow> is_writing (workers s ! j) \<Longrightarrow> i = j"
    and "\<And>i df todo. i < length (workers s) \<Longrightarrow> workers s ! i = Writing df todo \<Longrightarrow>
        lock s \<and> lost = [] \<and> pre @ todo = csv_text line df"
    and "mset dfs + mset lost + mset (in_flight_frames s) + mset (rest coerce s) = mset (rest coerce s0)"
    and "pre = [] \<or> (\<exists>df todo. pre @ todo = csv_text line df \<and>
         (df \<in> set lost \<or> (\<exists>i < length (workers s). workers s ! i = Writing df todo)))"
  shows "inv coerce line s0 s dfs lost pre"
  unfolding inv_def using assms by blast

lemma inv_file:
  "inv coerce line s0 s dfs lost pre \<Longrightarrow>
     content (dest s) = content (dest s0) @ concat (map (csv_text line) dfs) @ pre"
  and inv_capacity:
  "inv coerce line s0 s dfs lost pre \<Longrightarrow> capacity (dest s) = capacity (dest s0)"
  and inv_workers:
  "inv coerce line s0 s dfs lost pre \<Longrightarrow> length (workers s0) = length (workers s)"
  and inv_free:
  "inv coerce line s0 s dfs lost pre \<Longrightarrow> \<not> lock s \<Longrightarrow>
     pre = [] \<and> lost = [] \<and> (\<forall>i < length (workers s). \<not> is_writing (workers s ! i))"
  and inv_unique:
  "inv coerce line s0 s dfs lost pre \<Longrightarrow> i < length (workers s) \<Longrightarrow> j < length (workers s) \<Longrightarrow>
     is_writing (workers s ! i) \<Longrightarrow> is_writing (workers s ! j) \<Longrightarrow> i = j"
  and inv_writer:
  "inv coerce line s0 s dfs lost pre \<Longrightarrow> i < length (workers s) \<Longrightarrow>
     workers s ! i = Writing df todo \<Longrightarrow> lock s \<and> lost = [] \<and> pre @ todo = csv_text line df"
  and inv_count:
  "inv coerce line s0 s dfs lost pre \<Longrightarrow>
     mset dfs + mset lost + mset (in_flight_frames s) + mset (rest coerce s) = mset (rest coerce s0)"
  and inv_partial:
  "inv coerce line s0 s dfs lost pre \<Longrightarrow>
     pre = [] \<or> (\<exists>df todo. pre @ todo = csv_text line df \<and>
         (df \<in> set lost \<or> (\<exists>i < length (workers s). workers s ! i = Writing df todo)))"
  unfolding inv_def by blast+

lemma in_flight_frames_workers:
  "in_flight_frames (s\<lparr>workers := ws\<rparr>) = map filtration (queue s) @ concat (map frames_of ws)"
  by (simp add: in_flight_frames_def)

lemma inv_take:
  assumes I: "inv coerce line s0 s dfs lost pre"
    and i: "i < length (workers s)" and w: "workers s ! i = Idle" and q: "queue s = chunk # q"
  shows "inv coerce line s0
     (s\<lparr>queue := q, workers := (workers s)[i := Ready (filtration chunk)]\<rparr>) dfs lost pre"
    (is "inv coerce line s0 ?t dfs lost pre")
proof (rule invI)
  show "content (dest ?t) = content (dest s0) @ concat (map (csv_text line) dfs) @ pre"
    using inv_file [OF I] by simp
  show "capacity (dest ?t) = capacity (dest s0)"
    using inv_capacity [OF I] by simp
  show "length (workers s0) = length (workers ?t)"
    using inv_workers [OF I] by simp
  show "pre = [] \<and> lost = [] \<and> (\<forall>k < length (workers ?t). \<not> is_writing (workers ?t ! k))"
    if "\<not> lock ?t"
    using inv_free [OF I] that i by (simp add: nth_list_update)
  show "k = j" if "k < length (workers ?t)" "j < length (workers ?t)"
    "is_writing (workers ?t ! k)" "is_writing (workers ?t ! j)" for k j
    using inv_unique [OF I, of k j] that i by (simp add: nth_list_update split: if_splits)
  show "lock ?t \<and> lost = [] \<and> pre @ todo = csv_text line df"
    if "k < length (workers ?t)" "workers ?t ! k = Writing df todo" for k df todo
    using inv_writer [OF I, of k df todo] that i by (simp add: nth_list_update split: if_splits)
  have f: "mset (concat (map frames_of ((workers s)[i := Ready (filtration chunk)])))
      = mset (concat (map frames_of (workers s))) + {#filtration chunk#}"
    using i w by (simp add: frames_update_Idle)
  show "mset dfs + mset lost + mset (in_flight_frames ?t) + mset (rest coerce ?t) = mset (rest coerce s0)"
    using inv_count [OF I] q f by (simp add: in_flight_frames_def)
  show "pre = [] \<or> (\<exists>df todo. pre @ todo = csv_text line df \<and>
         (df \<in> set lost \<or> (\<exists>k < length (workers ?t). workers ?t ! k = Writing df todo)))"
  proof -
    from inv_partial [OF I] consider "pre = []"
      | df todo where "pre @ todo = csv_text line df" "df \<in> set lost"
      | df todo k where "pre @ todo = csv_text line df" "k < length (workers s)"
          "workers s ! k = Writing df todo"
      by blast
    then show ?thesis
    proof cases
      case 1 then show ?thesis by simp
    next
      case 2 then show ?thesis by blast
    next
      case 3
      then have "k \<noteq> i" using w by auto
      then have "workers ?t ! k = Writing df todo" using 3 by simp
      then show ?thesis using 3(1,2) by auto
    qed
  qed
qed

lemma inv_acquire:
  assumes I: "inv coerce line s0 s dfs lost pre"
    and i: "i < length (workers s)" and w: "workers s ! i = Ready df" and l: "\<not> lock s"
  shows "inv coerce line s0
     (s\<lparr>workers := (workers s)[i := Writing df (csv_text line df)], lock := True\<rparr>) dfs lost pre"
    (is "inv coerce line s0 ?t dfs lost pre")
proof (rule invI)
  have fr: "pre = []" "lost = []" "\<forall>k < length (workers s). \<not> is_writing (workers s ! k)"
    using inv_free [OF I l] by simp_all
  show "content (dest ?t) = content (dest s0) @ concat (map (csv_text line) dfs) @ pre"
    using inv_file [OF I] by simp
  show "capacity (dest ?t) = capacity (dest s0)"
    using inv_capacity [OF I] by simp
  show "length (workers s0) = length (workers ?t)"
    using inv_workers [OF I] by simp
  show "pre = [] \<and> lost = [] \<and> (\<forall>k < length (workers ?t). \<not> is_writing (workers ?t ! k))"
    if "\<not> lock ?t"
    using that by simp
  show "k = j" if "k < length (workers ?t)" "j < length (workers ?t)"
    "is_writing (workers ?t ! k)" "is_writing (workers ?t ! j)" for k j
    using fr(3) that i by (simp add: nth_list_update split: if_splits)
  show "lock ?t \<and> lost = [] \<and> pre @ todo = csv_text line df'"
    if "k < length (workers ?t)" "workers ?t ! k = Writing df' todo" for k df' todo
  proof (cases "k = i")
    case True
    then show ?thesis using that i fr by auto
  next
    case False
    then have "is_writing (workers s ! k)" using that by simp
    then show ?thesis using fr(3) that(1) by simp
  qed
  have f: "mset (concat (map frames_of ((workers s)[i := Writing df (csv_text line df)])))
      = mset (concat (map frames_of (workers s)))"
    using i w by (simp add: frames_update_same)
  show "mset dfs + mset lost + mset (in_flight_frames ?t) + mset (rest coerce ?t) = mset (rest coerce s0)"
    using inv_count [OF I] f by (simp add: in_flight_frames_def)
  show "pre = [] \<or> (\<exists>df todo. pre @ todo = csv_text line df \<and>
         (df \<in> set lost \<or> (\<exists>k < length (workers ?t). workers ?t ! k = Writing df todo)))"
    using fr(1) by simp
qed

lemma inv_write:
  assumes I: "inv coerce line s0 s dfs lost pre"
    and i: "i < length (workers s)" and w: "workers s ! i = Writing df (b # bs)"
  shows "inv coerce line s0
     (s\<lparr>workers := (workers s)[i := Writing df bs],
        dest := (dest s)\<lparr>content := content (dest s) @ [b]\<rparr>\<rparr>) dfs lost (pre @ [b])"
    (is "inv coerce line s0 ?t dfs lost ?pre")
proof (rule invI)
  have wr: "lock s" "lost = []" "pre @ b # bs = csv_text line df"
    using inv_writer [OF I i w] by simp_all
  have un: "k = i" if "k < length (workers s)" "is_writing (workers s ! k)" for k
    using inv_unique [OF I that(1) i that(2)] w by simp
  show "content (dest ?t) = content (dest s0) @ concat (map (csv_text line) dfs) @ ?pre"
    using inv_file [OF I] by simp
  show "capacity (dest ?t) = capacity (dest s0)"
    using inv_capacity [OF I] by simp
  show "length (workers s0) = length (workers ?t)"
    using inv_workers [OF I] by simp
  show "?pre = [] \<and> lost = [] \<and> (\<forall>k < length (workers ?t). \<not> is_writing (workers ?t ! k))"
    if "\<not> lock ?t"
    using that wr(1) by simp
  show "k = j" if "k < length (workers ?t)" "j < length (workers ?t)"
    "is_writing (workers ?t ! k)" "is_writing (workers ?t ! j)" for k j
  proof -
    have w': "is_writing (workers s ! m)" if "m < length (workers s)" "is_writing (workers ?t ! m)" for m
      using that i w by (cases "m = i") simp_all
    have "k < length (workers s)" "j < length (workers s)" using that(1,2) by simp_all
    then have "k = i" "j = i" using that(3,4) by (auto intro!: un w')
    then show ?thesis by simp
  qed
  show "lock ?t \<and> lost = [] \<and> ?pre @ todo = csv_text line df'"
    if "k < length (workers ?t)" "workers ?t ! k = Writing df' todo" for k df' todo
  proof (cases "k = i")
    case True
    then show ?thesis using that i wr by auto
  next
    case False
    then have a: "is_writing (workers s ! k)" using that by simp
    have b: "k < length (workers s)" using that by simp
    from b a have "k = i" by (rule un)
    with False show ?thesis by simp
  qed
  have f: "mset (concat (map frames_of ((workers s)[i := Writing df bs])))
      = mset (concat (map frames_of (workers s)))"
    using i w by (simp add: frames_update_same)
  show "mset dfs + mset lost + mset (in_flight_frames ?t) + mset (rest coerce ?t) = mset (rest coerce s0)"
    using inv_count [OF I] f by (simp add: in_flight_frames_def)
  have "?pre @ bs = csv_text line df" using wr(3) by simp
  moreover have "i < length (workers ?t)" "workers ?t ! i = Writing df bs" using i by simp_all
  ultimately show "?pre = [] \<or> (\<exists>df todo. ?pre @ todo = csv_text line df \<and>
         (df \<in> set lost \<or> (\<exists>k < length (workers ?t). workers ?t ! k = Writing df todo)))"
    by blast
qed

lemma inv_fail:
  assumes I: "inv coerce line s0 s dfs lost pre"
    and i: "i < length (workers s)" and w: "workers s ! i = Writing df (b # bs)"
  shows "inv coerce line s0 (s\<lparr>workers := (workers s)[i := Idle]\<rparr>) dfs [df] pre"
    (is "inv coerce line s0 ?t dfs ?lost pre")
proof (rule invI)
  have wr: "lock s" "lost = []" "pre @ b # bs = csv_text line df"
    using inv_writer [OF I i w] by simp_all
  have un: "k = i" if "k < length (workers s)" "is_writing (workers s ! k)" for k
    using inv_unique [OF I that(1) i that(2)] w by simp
  have none: "\<not> is_writing (workers ?t ! k)" if "k < length (workers ?t)" for k
  proof (cases "k = i")
    case True
    then show ?thesis using i by simp
  next
    case False
    show ?thesis
    proof
      assume "is_writing (workers ?t ! k)"
      then have a: "is_writing (workers s ! k)" using False by simp
      have b: "k < length (workers s)" using that by simp
      from b a have "k = i" by (rule un)
      with False show False by simp
    qed
  qed
  show "content (dest ?t) = content (dest s0) @ concat (map (csv_text line) dfs) @ pre"
    using inv_file [OF I] by simp
  show "capacity (dest ?t) = capacity (dest s0)"
    using inv_capacity [OF I] by simp
  show "length (workers s0) = length (workers ?t)"
    using inv_workers [OF I] by simp
  show "pre = [] \<and> ?lost = [] \<and> (\<forall>k < length (workers ?t). \<not> is_writing (workers ?t ! k))"
    if "\<not> lock ?t"
    using that wr(1) by simp
  show "k = j" if "k < length (workers ?t)" "j < length (workers ?t)"
    "is_writing (workers ?t ! k)" "is_writing (workers ?t ! j)" for k j
    using none [OF that(1)] that(3) by simp
  show "lock ?t \<and> ?lost = [] \<and> pre @ todo = csv_text line df'"
    if "k < length (workers ?t)" "workers ?t ! k = Writing df' todo" for k df' todo
    using none [OF that(1)] that(2) by simp
  have f: "add_mset df (mset (concat (map frames_of ((workers s)[i := Idle]))))
      = mset (concat (map frames_of (workers s)))"
    using i w by (simp add: frames_update_drop)
  show "mset dfs + mset ?lost + mset (in_flight_frames ?t) + mset (rest coerce ?t) = mset (rest coerce s0)"
    using inv_count [OF I] f [symmetric] wr(2) by (simp add: in_flight_frames_def)
  show "pre = [] \<or> (\<exists>df todo. pre @ todo = csv_text line df \<and>
         (df \<in> set ?lost \<or> (\<exists>k < length (workers ?t). workers ?t ! k = Writing df todo)))"
    using wr(3) by auto
qed

lemma inv_release:
  assumes I: "inv coerce line s0 s dfs lost pre"
    and i: "i < length (workers s)" and w: "workers s ! i = Writing df []"
  shows "inv coerce line s0 (s\<lparr>workers := (workers s)[i := Idle], lock := False\<rparr>)
     (dfs @ [df]) [] []"
    (is "inv coerce line s0 ?t ?dfs ?lost ?pre")
proof (rule invI)
  have wr: "lock s" "lost = []" "pre = csv_text line df"
    using inv_writer [OF I i w] by simp_all
  have un: "k = i" if "k < length (workers s)" "is_writing (workers s ! k)" for k
    using inv_unique [OF I that(1) i that(2)] w by simp
  have none: "\<not> is_writing (workers ?t ! k)" if "k < length (workers ?t)" for k
  proof (cases "k = i")
    case True
    then show ?thesis using i by simp
  next
    case False
    show ?thesis
    proof
      assume "is_writing (workers ?t ! k)"
      then have a: "is_writing (workers s ! k)" using False by simp
      have b: "k < length (workers s)" using that by simp
      from b a have "k = i" by (rule un)
      with False show False by simp
    qed
  qed
  show "content (dest ?t) = content (dest s0) @ concat (map (csv_text line) ?dfs) @ ?pre"
    using inv_file [OF I] wr(3) by simp
  show "capacity (dest ?t) = capacity (dest s0)"
    using inv_capacity [OF I] by simp
  show "length (workers s0) = length (workers ?t)"
    using inv_workers [OF I] by simp
  show "?pre = [] \<and> ?lost = [] \<and> (\<forall>k < length (workers ?t). \<not> is_writing (workers ?t ! k))"
    if "\<not> lock ?t"
    using none by simp
  show "k = j" if "k < length (workers ?t)" "j < length (workers ?t)"
    "is_writing (workers ?t ! k)" "is_writing (workers ?t ! j)" for k j
    using none [OF that(1)] that(3) by simp
  show "lock ?t \<and> ?lost = [] \<and> ?pre @ todo = csv_text line df'"
    if "k < length (workers ?t)" "workers ?t ! k = Writing df' todo" for k df' todo
    using none [OF that(1)] that(2) by simp
  have f: "add_mset df (mset (concat (map frames_of ((workers s)[i := Idle]))))
      = mset (concat (map frames_of (workers s)))"
    using i w by (simp add: frames_update_drop)
  show "mset ?dfs + mset ?lost + mset (in_flight_frames ?t) + mset (rest coerce ?t) = mset (rest coerce s0)"
    using inv_count [OF I] f [symmetric] wr(2) by (simp add: in_flight_frames_def)
  show "?pre = [] \<or> (\<exists>df todo. ?pre @ todo = csv_text line df \<and>
         (df \<in> set ?lost \<or> (\<exists>k < length (workers ?t). workers ?t ! k = Writing df todo)))"
    by simp
qed

lemma inv_step:
  assumes "step coerce line s t" and I: "inv coerce line s0 s dfs lost pre"
  shows "\<exists>dfs' lost' pre'. inv coerce line s0 t dfs' lost' pre' \<and>
     (lost' = lost \<or> (\<exists>i df b bs. i < length (workers s) \<and> workers s ! i = Writing df (b # bs)
        \<and> \<not> length (content (dest s)) < capacity (dest s)))"
  using assms(1)
proof cases
  case (m_dispatch c cs chunk)
  have "inv coerce line s0 t dfs lost pre"
    unfolding m_dispatch(1) using I m_dispatch(2-4) by (rule inv_dispatch)
  then show ?thesis by blast
next
  case (m_read_error c cs)
  have "inv coerce line s0 t dfs lost pre"
    unfolding m_read_error(1) using I m_read_error(2-4) by (rule inv_read_error)
  then show ?thesis by blast
next
  case m_close
  have "inv coerce line s0 t dfs lost pre"
    unfolding m_close(1) using I m_close(2,3) by (rule inv_close)
  then show ?thesis by blast
next
  case m_join
  have "inv coerce line s0 t dfs lost pre"
    unfolding m_join(1) using I m_join(2) by (rule inv_join)
  then show ?thesis by blast
next
  case (w_take i chunk q)
  have "inv coerce line s0 t dfs lost pre"
    unfolding w_take(1) using I w_take(2-4) by (rule inv_take)
  then show ?thesis by blast
next
  case (w_acquire i df)
  have "inv coerce line s0 t dfs lost pre"
    unfolding w_acquire(1) using I w_acquire(2-4) by (rule inv_acquire)
  then show ?thesis by blast
next
  case (w_write i df b bs)
  have "inv coerce line s0 t dfs lost (pre @ [b])"
    unfolding w_write(1) using I w_write(2,3) by (rule inv_write)
  then show ?thesis by blast
next
  case (w_fail i df b bs)
  have "inv coerce line s0 t dfs [df] pre"
    unfolding w_fail(1) using I w_fail(2,3) by (rule inv_fail)
  moreover have "\<exists>i df b bs. i < length (workers s) \<and> workers s ! i = Writing df (b # bs)
        \<and> \<not> length (content (dest s)) < capacity (dest s)"
    using w_fail(2-4) by blast
  ultimately show ?thesis by blast
next
  case (w_release i df)
  have "inv coerce line s0 t (dfs @ [df]) [] []"
    unfolding w_release(1) using I w_release(2,3) by (rule inv_release)
  moreover have "lost = []"
    using inv_writer [OF I w_release(2,3)] by simp
  ultimately show ?thesis by blast
qed

lemma inv_reaches:
  assumes "reaches coerce line s0 s" and "clean s0"
  shows "\<exists>dfs lost pre. inv coerce line s0 s dfs lost pre"
  using assms
proof (induction rule: reaches.induct)
  case (start s)
  then have "inv coerce line s s [] [] []"
    by (intro inv_start) (simp_all add: clean_def)
  then show ?case by blast
next
  case (further s t u)
  then obtain dfs lost pre where "inv coerce line s t dfs lost pre" by blast
  from inv_step [OF further.hyps(2) this] show ?case by blast
qed

lemma texts_mono:
  assumes "mset xs \<subseteq># mset ys"
  shows "length (concat (map f xs)) \<le> length (concat (map f ys))"
proof -
  from assms obtain Z where Z: "mset ys = mset xs + Z"
    by (auto simp: subset_mset.le_iff_add)
  have l: "length (concat (map f zs)) = sum_mset (image_mset (\<lambda>z. length (f z)) (mset zs))" for zs
    by (induction zs) simp_all
  show ?thesis by (simp add: l Z)
qed

lemma frames_member:
  "i < length ws \<Longrightarrow> frames_of (ws ! i) = [df] \<Longrightarrow> df \<in># mset (concat (map frames_of ws))"
  by (metis in_set_conv_nth list.set_intros(1) set_concat set_mset_mset UN_I image_eqI set_map nth_mem)

lemma no_fail:
  assumes I: "inv coerce line s0 s dfs lost pre" and F: "fits coerce line s0"
    and i: "i < length (workers s)" and w: "workers s ! i = Writing df (b # bs)"
  shows "length (content (dest s)) < capacity (dest s)"
proof -
  have wr: "lost = []" "pre @ b # bs = csv_text line df"
    using inv_writer [OF I i w] by simp_all
  have "df \<in># mset (concat (map frames_of (workers s)))"
    using i w by (intro frames_member [of i]) simp_all
  then have "df \<in># mset (in_flight_frames s)"
    by (simp add: in_flight_frames_def)
  then have "mset dfs + {#df#} \<subseteq># mset dfs + mset (in_flight_frames s)"
    by (simp add: mset_subset_eq_single)
  also have "\<dots> \<subseteq># mset (rest coerce s0)"
    using inv_count [OF I] wr(1) by (metis add.right_neutral mset.simps(1) mset_subset_eq_add_left)
  finally have "mset (dfs @ [df]) \<subseteq># mset (rest coerce s0)" by simp
  then have "length (concat (map (csv_text line) (dfs @ [df])))
      \<le> length (concat (map (csv_text line) (rest coerce s0)))"
    by (rule texts_mono)
  moreover have "length pre < length (csv_text line df)"
    using wr(2) [symmetric] by simp
  moreover have "length (content (dest s))
      = length (content (dest s0)) + length (concat (map (csv_text line) dfs)) + length pre"
    using inv_file [OF I] by simp
  ultimately show ?thesis
    using F inv_capacity [OF I] by (simp add: fits_def)
qed

lemma inv_reaches_fits:
  assumes "reaches coerce line s0 s" and "clean s0" and F: "fits coerce line s0"
  shows "\<exists>dfs pre. inv coerce line s0 s dfs [] pre"
  using assms
proof (induction rule: reaches.induct)
  case (start s)
  then have "inv coerce line s s [] [] []"
    by (intro inv_start) (simp_all add: clean_def)
  then show ?case by blast
next
  case (further s t u)
  then obtain dfs pre where I: "inv coerce line s t dfs [] pre" by blast
  from inv_step [OF further.hyps(2) I] obtain dfs' lost' pre' where
    I': "inv coerce line s u dfs' lost' pre'" and
    d: "lost' = [] \<or> (\<exists>i df b bs. i < length (workers t) \<and> workers t ! i = Writing df (b # bs)
        \<and> \<not> length (content (dest t)) < capacity (dest t))"
    by blast
  have "lost' = []"
    using d no_fail [OF I further.prems(2)] by blast
  with I' show ?case by blast
qed

lemma idle_frames:
  "list_all (\<lambda>w. w = Idle) ws \<Longrightarrow> concat (map frames_of ws) = []"
  by (induction ws) auto

lemma inv_quiescent:
  assumes I: "inv coerce line s0 s dfs [] pre" and q: "quiescent s"
  shows "content (dest s) = content (dest s0) @ concat (map (csv_text line) dfs)
     \<and> mset dfs = mset (rest coerce s0)"
proof -
  have idle: "\<forall>i < length (workers s). workers s ! i = Idle"
    using q by (simp add: quiescent_def list_all_length)
  have "pre = []"
    using inv_partial [OF I] idle by auto
  moreover have "in_flight_frames s = []"
    using q by (simp add: quiescent_def in_flight_frames_def idle_frames)
  moreover have "rest coerce s = []"
    using q by (simp add: quiescent_def rest_def)
  ultimately show ?thesis
    using inv_file [OF I] inv_count [OF I] by simp
qed

lemma reaches_step: "step coerce line s t \<Longrightarrow> reaches coerce line s t"
  by (rule reaches.further [OF reaches.start])

lemma reaches_trans:
  "reaches coerce line t u \<Longrightarrow> reaches coerce line s t \<Longrightarrow> reaches coerce line s u"
  by (induction rule: reaches.induct) (auto intro: reaches.further)

lemma run_write:
  assumes "i < length (workers s)" and "workers s ! i = Writing df todo"
    and "length (content (dest s)) + length todo \<le> capacity (dest s)"
  shows "reaches coerce line s
     (s\<lparr>workers := (workers s)[i := Writing df []],
        dest := (dest s)\<lparr>content := content (dest s) @ todo\<rparr>\<rparr>)"
  using assms
proof (induction todo arbitrary: s)
  case Nil
  have "(workers s)[i := Writing df []] = workers s"
    using Nil.prems(2) by (metis list_update_id)
  then have "s\<lparr>workers := (workers s)[i := Writing df []],
        dest := (dest s)\<lparr>content := content (dest s) @ []\<rparr>\<rparr> = s"
    by simp
  then show ?case by (simp only: reaches.start)
next
  case (Cons b bs)
  let ?s1 = "s\<lparr>workers := (workers s)[i := Writing df bs],
        dest := (dest s)\<lparr>content := content (dest s) @ [b]\<rparr>\<rparr>"
  have st: "step coerce line s ?s1"
    using Cons.prems by (intro step.w_write) simp_all
  have "reaches coerce line ?s1
     (?s1\<lparr>workers := (workers ?s1)[i := Writing df []],
        dest := (dest ?s1)\<lparr>content := content (dest ?s1) @ bs\<rparr>\<rparr>)"
    using Cons.prems by (intro Cons.IH) simp_all
  moreover have "?s1\<lparr>workers := (workers ?s1)[i := Writing df []],
        dest := (dest ?s1)\<lparr>content := content (dest ?s1) @ bs\<rparr>\<rparr>
      = s\<lparr>workers := (workers s)[i := Writing df []],
        dest := (dest s)\<lparr>content := content (dest s) @ b # bs\<rparr>\<rparr>"
    by simp
  ultimately have "reaches coerce line ?s1
      (s\<lparr>workers := (workers s)[i := Writing df []],
        dest := (dest s)\<lparr>content := content (dest s) @ b # bs\<rparr>\<rparr>)"
    by (simp only:)
  then show ?case using reaches_step [OF st] by (rule reaches_trans)
qed

lemma run_task:
  assumes i: "i < length (workers s)" and w: "workers s ! i = Idle"
    and q: "queue s = chunk # q" and l: "\<not> lock s"
    and room: "length (content (dest s)) + length (csv_text line (filtration chunk)) \<le> capacity (dest s)"
  shows "reaches coerce line s
     (s\<lparr>queue := q,
        dest := (dest s)\<lparr>content := content (dest s) @ csv_text line (filtration chunk)\<rparr>\<rparr>)"
proof -
  let ?df = "filtration chunk"
  let ?s1 = "s\<lparr>queue := q, workers := (workers s)[i := Ready ?df]\<rparr>"
  let ?s2 = "?s1\<lparr>workers := (workers ?s1)[i := Writing ?df (csv_text line ?df)], lock := True\<rparr>"
  let ?s3 = "?s2\<lparr>workers := (workers ?s2)[i := Writing ?df []],
        dest := (dest ?s2)\<lparr>content := content (dest ?s2) @ csv_text line ?df\<rparr>\<rparr>"
  let ?s4 = "?s3\<lparr>workers := (workers ?s3)[i := Idle], lock := False\<rparr>"
  have 1: "step coerce line s ?s1"
    using i w q by (rule step.w_take)
  have 2: "step coerce line ?s1 ?s2"
    using i l by (intro step.w_acquire) simp_all
  have 3: "reaches coerce line ?s2 ?s3"
    using i room by (intro run_write) simp_all
  have 4: "step coerce line ?s3 ?s4"
    using i by (intro step.w_release [where df = ?df]) simp_all
  have "(workers s)[i := Idle] = workers s"
    using w by (metis list_update_id)
  then have e: "?s4 = s\<lparr>queue := q,
        dest := (dest s)\<lparr>content := content (dest s) @ csv_text line ?df\<rparr>\<rparr>"
    using l by simp
  have "reaches coerce line s ?s4"
    by (rule reaches_trans [OF reaches_step [OF 4]], rule reaches_trans [OF 3],
        rule reaches_trans [OF reaches_step [OF 2]], rule reaches_step [OF 1])
  then show ?thesis by (simp only: e)
qed

lemma run_dispatch_all:
  assumes "main s = Dispatching"
  shows "reaches coerce line s
     (s\<lparr>source := drop (length (read_prefix coerce (source s))) (source s),
        queue := queue s @ read_prefix coerce (source s)\<rparr>)"
  using assms
proof (induction cs \<equiv> "source s" arbitrary: s)
  case Nil
  then have "s\<lparr>source := drop (length (read_prefix coerce (source s))) (source s),
        queue := queue s @ read_prefix coerce (source s)\<rparr> = s"
    by (simp add: Nil.hyps [symmetric])
  then show ?case by (simp only: reaches.start)
next
  case (Cons c cs)
  note src = Cons.hyps(2) [symmetric]
  show ?case
  proof (cases "read_rows coerce c")
    case None
    then have "s\<lparr>source := drop (length (read_prefix coerce (source s))) (source s),
        queue := queue s @ read_prefix coerce (source s)\<rparr> = s"
      by (simp add: src)
    then show ?thesis by (simp only: reaches.start)
  next
    case (Some chunk)
    let ?s1 = "s\<lparr>source := cs, queue := queue s @ [chunk]\<rparr>"
    have st: "step coerce line s ?s1"
      using Cons.prems src Some by (rule step.m_dispatch)
    have "reaches coerce line ?s1
       (?s1\<lparr>source := drop (length (read_prefix coerce (source ?s1))) (source ?s1),
          queue := queue ?s1 @ read_prefix coerce (source ?s1)\<rparr>)"
      using Cons.prems by (intro Cons.hyps(1)) simp_all
    moreover have "?s1\<lparr>source := drop (length (read_prefix coerce (source ?s1))) (source ?s1),
          queue := queue ?s1 @ read_prefix coerce (source ?s1)\<rparr>
        = s\<lparr>source := drop (length (read_prefix coerce (source s))) (source s),
        queue := queue s @ read_prefix coerce (source s)\<rparr>"
      by (simp add: src Some)
    ultimately have "reaches coerce line ?s1
        (s\<lparr>source := drop (length (read_prefix coerce (source s))) (source s),
        queue := queue s @ read_prefix coerce (source s)\<rparr>)"
      by (simp only:)
    then show ?thesis using reaches_step [OF st] by (rule reaches_trans)
  qed
qed

lemma run_sequential:
  assumes "main s = Dispatching" and "queue s = []" and "\<not> lock s"
    and "i < length (workers s)" and "workers s ! i = Idle"
    and "length (content (dest s))
        + length (concat (map (csv_text line) (map filtration (read_prefix coerce (source s)))))
        \<le> capacity (dest s)"
  shows "reaches coerce line s
     (s\<lparr>main := (if length (read_prefix coerce (source s)) = length (source s)
                  then Joining else Raised ValueError),
        source := drop (length (read_prefix coerce (source s))) (source s),
        dest := (dest s)\<lparr>content := content (dest s)
          @ concat (map (csv_text line) (map filtration (read_prefix coerce (source s))))\<rparr>\<rparr>)"
  using assms
proof (induction cs \<equiv> "source s" arbitrary: s)
  case Nil
  note src = Nil.hyps [symmetric]
  let ?s1 = "s\<lparr>main := Joining\<rparr>"
  have st: "step coerce line s ?s1"
    using Nil.prems(1) src by (rule step.m_close)
  have "s\<lparr>main := (if length (read_prefix coerce (source s)) = length (source s)
                  then Joining else Raised ValueError),
        source := drop (length (read_prefix coerce (source s))) (source s),
        dest := (dest s)\<lparr>content := content (dest s)
          @ concat (map (csv_text line) (map filtration (read_prefix coerce (source s))))\<rparr>\<rparr> = ?s1"
    by (simp add: src)
  then show ?case using reaches_step [OF st] by (simp only:)
next
  case (Cons c cs)
  note src = Cons.hyps(2) [symmetric]
  show ?case
  proof (cases "read_rows coerce c")
    case None
    let ?s1 = "s\<lparr>main := Raised ValueError\<rparr>"
    have st: "step coerce line s ?s1"
      using Cons.prems(1) src None by (rule step.m_read_error)
    have "s\<lparr>main := (if length (read_prefix coerce (source s)) = length (source s)
                  then Joining else Raised ValueError),
        source := drop (length (read_prefix coerce (source s))) (source s),
        dest := (dest s)\<lparr>content := content (dest s)
          @ concat (map (csv_text line) (map filtration (read_prefix coerce (source s))))\<rparr>\<rparr> = ?s1"
      by (simp add: src None)
    then show ?thesis using reaches_step [OF st] by (simp only:)
  next
    case (Some chunk)
    let ?s1 = "s\<lparr>source := cs, queue := queue s @ [chunk]\<rparr>"
    let ?s2 = "?s1\<lparr>queue := [],
        dest := (dest ?s1)\<lparr>content := content (dest ?s1) @ csv_text line (filtration chunk)\<rparr>\<rparr>"
    let ?s3 = "?s2\<lparr>main := (if length (read_prefix coerce (source ?s2)) = length (source ?s2)
                  then Joining else Raised ValueError),
        source := drop (length (read_prefix coerce (source ?s2))) (source ?s2),
        dest := (dest ?s2)\<lparr>content := content (dest ?s2)
          @ concat (map (csv_text line) (map filtration (read_prefix coerce (source ?s2))))\<rparr>\<rparr>"
    have room: "length (content (dest s)) + length (csv_text line (filtration chunk))
        + length (concat (map (csv_text line) (map filtration (read_prefix coerce cs))))
        \<le> capacity (dest s)"
      using Cons.prems(6) by (simp add: src Some)
    have 1: "step coerce line s ?s1"
      using Cons.prems(1) src Some by (rule step.m_dispatch)
    have 2: "reaches coerce line ?s1 ?s2"
      using Cons.prems(2-5) room by (intro run_task [where i = i]) simp_all
    have 3: "reaches coerce line ?s2 ?s3"
      using Cons.prems(1-5) room by (intro Cons.hyps(1)) simp_all
    have e: "?s3 = s\<lparr>main := (if length (read_prefix coerce (source s)) = length (source s)
                  then Joining else Raised ValueError),
        source := drop (length (read_prefix coerce (source s))) (source s),
        dest := (dest s)\<lparr>content := content (dest s)
          @ concat (map (csv_text line) (map filtration (read_prefix coerce (source s))))\<rparr>\<rparr>"
      using Cons.prems(2) by (simp add: src Some)
    have "reaches coerce line s ?s3"
      by (rule reaches_trans [OF 3], rule reaches_trans [OF 2], rule reaches_step [OF 1])
    then show ?thesis by (simp only: e)
  qed
qed

lemma run_complete:
  assumes c: "clean s" and m: "main s = Dispatching" and W: "0 < length (workers s)"
    and F: "fits coerce line s"
  shows "\<exists>t. reaches coerce line s t \<and> quiescent t
     \<and> content (dest t) = content (dest s) @ concat (map (csv_text line) (rest coerce s))
     \<and> (main t = Returned \<or> main t = Raised ValueError)"
proof -
  let ?out = "concat (map (csv_text line) (map filtration (read_prefix coerce (source s))))"
  let ?t = "s\<lparr>main := (if length (read_prefix coerce (source s)) = length (source s)
                  then Joining else Raised ValueError),
        source := drop (length (read_prefix coerce (source s))) (source s),
        dest := (dest s)\<lparr>content := content (dest s) @ ?out\<rparr>\<rparr>"
  have idle: "list_all (\<lambda>w. w = Idle) (workers s)" and q: "queue s = []" and l: "\<not> lock s"
    using c by (simp_all add: clean_def)
  have w0: "workers s ! 0 = Idle"
    using idle W by (simp add: list_all_length)
  have room: "length (content (dest s)) + length ?out \<le> capacity (dest s)"
    using F m by (simp add: fits_def rest_def)
  have r: "reaches coerce line s ?t"
    using m q l W w0 room by (rule run_sequential)
  have out: "content (dest ?t) = content (dest s) @ concat (map (csv_text line) (rest coerce s))"
    using m by (simp add: rest_def)
  show ?thesis
  proof (cases "length (read_prefix coerce (source s)) = length (source s)")
    case True
    let ?u = "?t\<lparr>main := Returned\<rparr>"
    have "step coerce line ?t ?u"
      using True q idle by (intro step.m_join) simp_all
    then have "reaches coerce line s ?u"
      using r by (rule reaches.further [rotated])
    moreover have "quiescent ?u"
      using q idle by (simp add: quiescent_def)
    moreover have "content (dest ?u) = content (dest s) @ concat (map (csv_text line) (rest coerce s))"
      using out by simp
    moreover have "main ?u = Returned" by simp
    ultimately show ?thesis by blast
  next
    case False
    have "quiescent ?t"
      using False q idle by (simp add: quiescent_def)
    moreover have "main ?t = Raised ValueError" using False by simp
    ultimately show ?thesis using r out by blast
  qed
qed

end
